theory Spec2Isabelle
  imports Main
begin

unbundle bit_operations_syntax

section \<open>Tensors and the library operations used by \<open>cuda_graph.py\<close>\<close>

text \<open>
  The module \<open>kernl/optimizer/cuda_graph.py\<close> keeps a process-wide pool of tensors,
  copies every input of a call into a pooled tensor, and wraps a model so that it is
  captured as a CUDA graph once and replayed afterwards.  The module calls into PyTorch
  and Triton; those operations are modelled here by what they compute on the attributes
  the module reads.  They are taken to return normally: running out of device memory
  and the argument checks of \<open>as_strided\<close> and \<open>copy_\<close> are not modelled.

  A tensor is a view on a storage: the storage starts at \<open>storage_ptr\<close> and is
  \<open>storage_nbytes\<close> bytes long; the view starts \<open>storage_offset\<close> elements into it
  and has a shape and a stride.  The values of a tensor are not part of it: they are
  read from the device memory at the addresses of its elements, so that two views on
  one storage see each other's writes.
\<close>

datatype dtype = Bool | UInt8 | Int8 | Int16 | Int32 | Int64
  | Float16 | BFloat16 | Float32 | Float64

fun itemsize :: "dtype \<Rightarrow> nat" where
  "itemsize Bool = 1"
| "itemsize UInt8 = 1"
| "itemsize Int8 = 1"
| "itemsize Int16 = 2"
| "itemsize Int32 = 4"
| "itemsize Int64 = 8"
| "itemsize Float16 = 2"
| "itemsize BFloat16 = 2"
| "itemsize Float32 = 4"
| "itemsize Float64 = 8"

record tensor =
  dtype :: dtype
  device :: nat
  storage_ptr :: nat
  storage_nbytes :: nat
  storage_offset :: nat
  shape :: "nat list"
  stride :: "nat list"

text \<open>\<open>Tensor.data_ptr()\<close>: the address of the first element of the view.\<close>

definition data_ptr :: "tensor \<Rightarrow> nat" where
  "data_ptr t = storage_ptr t + storage_offset t * itemsize (dtype t)"

text \<open>
  \<open>len(t.untyped_storage())\<close>: an untyped storage is a byte array, and its length is
  its size in bytes.
\<close>

definition untyped_storage_len :: "tensor \<Rightarrow> int" where
  "untyped_storage_len t = int (storage_nbytes t)"


text \<open>
  \<open>triton.next_power_of_2\<close>, on Python's unbounded integers:
  \<^verbatim>\<open>
  def next_power_of_2(n: int):
      n -= 1
      n |= n >> 1
      n |= n >> 2
      n |= n >> 4
      n |= n >> 8
      n |= n >> 16
      n |= n >> 32
      n += 1
      return n
  \<close>
  Python's \<open>>>\<close> on a negative integer rounds towards minus infinity, as \<open>drop_bit\<close>
  on \<open>int\<close> does.
\<close>

definition smear :: "nat \<Rightarrow> int \<Rightarrow> int" where
  "smear k n = n OR drop_bit k n"

definition next_power_of_2 :: "int \<Rightarrow> int" where
  "next_power_of_2 n =
     smear 32 (smear 16 (smear 8 (smear 4 (smear 2 (smear 1 (n - 1)))))) + 1"

text \<open>
  \<open>torch.as_strided(t, size, stride)\<close> with no storage offset given: a view on the
  storage of \<open>t\<close> with the new size and stride, at the storage offset of \<open>t\<close>.
\<close>

definition as_strided :: "tensor \<Rightarrow> nat list \<Rightarrow> nat list \<Rightarrow> tensor" where
  "as_strided t sz st = t\<lparr>shape := sz, stride := st\<rparr>"

text \<open>
  The elements of a view, in row-major order: \<open>offsets\<close> are their distances from the
  first element, counted in elements, and \<open>cells\<close> their addresses.  The device memory
  maps the address of an element to its value, and \<open>logical_values\<close> reads the
  values of a view from it.
\<close>

fun offsets :: "nat list \<Rightarrow> nat list \<Rightarrow> nat list" where
  "offsets (n # sz) (st # sts) =
     concat (map (\<lambda>i. map (\<lambda>off. i * st + off) (offsets sz sts)) [0..<n])"
| "offsets _ _ = [0]"

definition cells :: "tensor \<Rightarrow> nat list" where
  "cells t = map (\<lambda>off. data_ptr t + off * itemsize (dtype t)) (offsets (shape t) (stride t))"

type_synonym memory = "nat \<Rightarrow> int"

definition logical_values :: "memory \<Rightarrow> tensor \<Rightarrow> int list" where
  "logical_values m t = map m (cells t)"

text \<open>
  \<open>dst.copy_(src)\<close> for tensors of one shape: the values of \<open>src\<close> are read and
  written to the elements of \<open>dst\<close>, element for element.  The tensor \<open>dst\<close> itself
  is unchanged.
\<close>

definition copy_into :: "memory \<Rightarrow> tensor \<Rightarrow> tensor \<Rightarrow> memory" where
  "copy_into m dst src = fold (\<lambda>(a, v) m. m(a := v)) (zip (cells dst) (logical_values m src)) m"

section \<open>The process state\<close>

text \<open>
  \<open>static_inputs_pool\<close> is the module's global \<open>defaultdict(deque)\<close>: a dictionary
  from (storage size, dtype) to a queue of tensors, a missing key reading as the empty
  queue.  \<open>next_ptr\<close> stands for the device allocator: every address below it has been
  handed out, and a new allocation starts at it.  \<open>memory\<close> is the device memory.
  \<open>trace\<close> records the calls made to the model and to the graph-capture primitive.
\<close>

type_synonym pool_key = "int \<times> dtype"

type_synonym pool = "pool_key \<rightharpoonup> tensor list"

datatype event =
    ModelCall "tensor list"
  | Capture "tensor list" "nat list"
  | Replay nat "tensor list"

record state =
  static_inputs_pool :: pool
  next_ptr :: nat
  memory :: memory
  trace :: "event list"

definition deque_of :: "pool \<Rightarrow> pool_key \<Rightarrow> tensor list" where
  "deque_of m k = (case m k of None \<Rightarrow> [] | Some q \<Rightarrow> q)"

text \<open>
  \<open>torch.empty((n,), dtype=dt, device=dev)\<close>: a new contiguous tensor of \<open>n\<close>
  elements on a storage of its own, at an address not handed out before.  Its values
  are uninitialised: the memory is left as it is.
\<close>

definition torch_empty :: "state \<Rightarrow> int \<Rightarrow> dtype \<Rightarrow> nat \<Rightarrow> tensor \<times> state" where
  "torch_empty s n dt dev =
     (\<lparr>dtype = dt, device = dev, storage_ptr = next_ptr s,
       storage_nbytes = nat n * itemsize dt, storage_offset = 0,
       shape = [nat n], stride = [1]\<rparr>,
      s\<lparr>next_ptr := next_ptr s + max 1 (nat n * itemsize dt)\<rparr>)"

section \<open>\<open>get_static_inputs\<close>\<close>

datatype error = AssertionError | ExternalError

text \<open>The pool key of an input, as lines 41 and 42 compute it.\<close>

definition pool_key_of :: "tensor \<Rightarrow> pool_key" where
  "pool_key_of original_tensor =
     (next_power_of_2 (untyped_storage_len original_tensor), dtype original_tensor)"

text \<open>
  The loop over \<open>model_inputs\<close>.  \<open>clone\<close> is \<open>static_inputs_clone\<close>, the call's own
  copy of the queues, and \<open>acc\<close> is \<open>cuda_graph_input\<close>.  Reading a missing key of the
  clone inserts it with an empty queue, as a \<open>defaultdict\<close> does.  A failed assertion
  leaves the pool as the loop has changed it so far.
\<close>

fun bind_loop ::
  "state \<Rightarrow> pool \<Rightarrow> tensor list \<Rightarrow> tensor list \<Rightarrow> (error + tensor list) \<times> state" where
  "bind_loop s clone acc [] = (Inr acc, s)"
| "bind_loop s clone acc (original_tensor # rest) =
     (let storage_size = next_power_of_2 (untyped_storage_len original_tensor);
          tensor_pool_key = (storage_size, dtype original_tensor);
          (static_tensor, clone', s') =
            (case deque_of clone tensor_pool_key of
               b # q \<Rightarrow> (b, clone(tensor_pool_key \<mapsto> q), s)
             | [] \<Rightarrow>
                 (let (t, s1) = torch_empty s storage_size (dtype original_tensor)
                                  (device original_tensor)
                  in (t, clone(tensor_pool_key \<mapsto> []),
                      s1\<lparr>static_inputs_pool := (static_inputs_pool s1)
                           (tensor_pool_key \<mapsto>
                              deque_of (static_inputs_pool s1) tensor_pool_key @ [t])\<rparr>)));
          before_ptr = data_ptr static_tensor;
          static_view =
            as_strided static_tensor (shape original_tensor) (stride original_tensor);
          s'' = s'\<lparr>memory := copy_into (memory s') static_view original_tensor\<rparr>
      in if before_ptr = data_ptr static_view
         then bind_loop s'' clone' (acc @ [static_view]) rest
         else (Inl AssertionError, s''))"

definition get_static_inputs :: "state \<Rightarrow> tensor list \<Rightarrow> (error + tensor list) \<times> state" where
  "get_static_inputs s model_inputs = bind_loop s (static_inputs_pool s) [] model_inputs"

section \<open>\<open>cuda_graphs_wrapper\<close>\<close>

text \<open>
  The model and \<open>cudagraphify_impl\<close> are callables from outside the module.  A call to
  one of them is recorded in the trace; whether it raises is decided by a function of
  the trace so far and the call, and an exception propagates to the caller of the
  wrapper, since the module catches none.  The function that \<open>cudagraphify_impl\<close>
  returns is identified by the position of its \<open>Capture\<close> event in the trace.
\<close>

type_synonym raise_fn = "event list \<Rightarrow> event \<Rightarrow> bool"

definition external :: "raise_fn \<Rightarrow> state \<Rightarrow> event \<Rightarrow> (error + unit) \<times> state" where
  "external raises s ev =
     (if raises (trace s) ev then Inl ExternalError else Inr (),
      s\<lparr>trace := trace s @ [ev]\<rparr>)"

text \<open>
  An element of \<open>inputs\<close> is a tensor or a \<open>FakeTensor\<close>; the argument itself is a
  list, a tuple or some other object.
\<close>

datatype input = Tensor tensor | FakeTensor tensor

datatype py_inputs = PyList "input list" | PyTuple "input list" | PyOther

fun is_fake :: "input \<Rightarrow> bool" where
  "is_fake (FakeTensor t) = True"
| "is_fake (Tensor t) = False"

fun tensor_of :: "input \<Rightarrow> tensor" where
  "tensor_of (Tensor t) = t"
| "tensor_of (FakeTensor t) = t"

text \<open>
  What \<open>cuda_graphs_wrapper\<close> returns: the lambda of the eager branch, closed over
  the captured function \<open>f\<close>, or the function \<open>run\<close> of the deferred branch, closed
  over \<open>inputs\<close> and the cell \<open>compiled_fn\<close>.
\<close>

datatype callable = EagerFn nat | DeferredFn "input list" "nat option"

definition eager_branch :: "raise_fn \<Rightarrow> state \<Rightarrow> input list \<Rightarrow> (error + callable) \<times> state" where
  "eager_branch raises s inputs =
     (case get_static_inputs s (map tensor_of inputs) of
        (Inl e, s1) \<Rightarrow> (Inl e, s1)
      | (Inr inputs', s1) \<Rightarrow>
          (case external raises s1 (ModelCall inputs') of
             (Inl e, s2) \<Rightarrow> (Inl e, s2)
           | (Inr _, s2) \<Rightarrow>
               (case external raises s2 (Capture inputs' [0..<length inputs']) of
                  (Inl e, s3) \<Rightarrow> (Inl e, s3)
                | (Inr _, s3) \<Rightarrow> (Inr (EagerFn (length (trace s2))), s3))))"

definition cuda_graphs_wrapper ::
  "raise_fn \<Rightarrow> state \<Rightarrow> py_inputs \<Rightarrow> (error + callable) \<times> state" where
  "cuda_graphs_wrapper raises s inputs =
     (case inputs of
        PyOther \<Rightarrow> (Inl AssertionError, s)
      | PyList xs \<Rightarrow>
          if \<not> list_ex is_fake xs then eager_branch raises s xs
          else (Inr (DeferredFn xs None), s)
      | PyTuple xs \<Rightarrow>
          if \<not> list_ex is_fake xs then eager_branch raises s xs
          else (Inr (DeferredFn xs None), s))"

text \<open>
  Calling the returned function on concrete tensors.  The result is the error raised,
  if any, the state afterwards and the callable with its cell as the call leaves it.
  The scope \<open>preserve_rng_state\<close> around the deferred warm-up only saves and restores
  the random generators and is left out.
\<close>

fun invoke ::
  "raise_fn \<Rightarrow> state \<Rightarrow> callable \<Rightarrow> tensor list \<Rightarrow> (error + unit) \<times> state \<times> callable" where
  "invoke raises s (EagerFn f) args =
     (case get_static_inputs s args of
        (Inl e, s1) \<Rightarrow> (Inl e, s1, EagerFn f)
      | (Inr bound, s1) \<Rightarrow>
          (let (r, s2) = external raises s1 (Replay f bound) in (r, s2, EagerFn f)))"
| "invoke raises s (DeferredFn inputs compiled_fn) args =
     (case get_static_inputs s args of
        (Inl e, s1) \<Rightarrow> (Inl e, s1, DeferredFn inputs compiled_fn)
      | (Inr new_inputs, s1) \<Rightarrow>
          (case compiled_fn of
             Some f \<Rightarrow>
               (let (r, s2) = external raises s1 (Replay f new_inputs)
                in (r, s2, DeferredFn inputs (Some f)))
           | None \<Rightarrow>
               (case external raises s1 (ModelCall new_inputs) of
                  (Inl e, s2) \<Rightarrow> (Inl e, s2, DeferredFn inputs None)
                | (Inr _, s2) \<Rightarrow>
                    (case external raises s2 (Capture new_inputs [0..<length inputs]) of
                       (Inl e, s3) \<Rightarrow> (Inl e, s3, DeferredFn inputs None)
                     | (Inr _, s3) \<Rightarrow>
                         (let f = length (trace s2);
                              (r, s4) = external raises s3 (Replay f new_inputs)
                          in (r, s4, DeferredFn inputs (Some f)))))))"


section \<open>Vocabulary of the properties\<close>


text \<open>
  One round of the loop, named: the view that an input is bound to, the buffer that a
  miss allocates, and the state after the buffer is appended to the pool.
\<close>

definition bound_view :: "tensor \<Rightarrow> tensor \<Rightarrow> tensor" where
  "bound_view b x = as_strided b (shape x) (stride x)"

definition written :: "state \<Rightarrow> tensor \<Rightarrow> tensor \<Rightarrow> state" where
  "written s b x = s\<lparr>memory := copy_into (memory s) (bound_view b x) x\<rparr>"

definition fresh_buffer :: "state \<Rightarrow> tensor \<Rightarrow> tensor" where
  "fresh_buffer s x = fst (torch_empty s (fst (pool_key_of x)) (snd (pool_key_of x)) (device x))"

definition register :: "state \<Rightarrow> tensor \<Rightarrow> state" where
  "register s x =
     (let k = pool_key_of x; (t, s1) = torch_empty s (fst k) (snd k) (device x)
      in s1\<lparr>static_inputs_pool := (static_inputs_pool s1)(k \<mapsto> deque_of (static_inputs_pool s1) k @ [t])\<rparr>)"

text \<open>
  The demand of a call for a key is the number of its inputs with that key; \<open>occ xs i\<close>
  counts the inputs before position \<open>i\<close> that have the key of input \<open>i\<close>.
\<close>

definition demand :: "tensor list \<Rightarrow> pool_key \<Rightarrow> nat" where
  "demand xs k = length (filter (\<lambda>x. pool_key_of x = k) xs)"

definition occ :: "tensor list \<Rightarrow> nat \<Rightarrow> nat" where
  "occ xs i = demand (take i xs) (pool_key_of (xs ! i))"

text \<open>
  During a call the queues of the clone are suffixes of the queues of the pool;
  \<open>slot\<close> is the index in the pool's queue of the buffer that input \<open>i\<close> receives.
\<close>

definition snapshot_inv :: "state \<Rightarrow> pool \<Rightarrow> bool" where
  "snapshot_inv s clone \<longleftrightarrow>
     (\<forall>k. \<exists>pre. deque_of (static_inputs_pool s) k = pre @ deque_of clone k)"

definition slot :: "state \<Rightarrow> pool \<Rightarrow> tensor list \<Rightarrow> nat \<Rightarrow> nat" where
  "slot s clone xs i =
     length (deque_of (static_inputs_pool s) (pool_key_of (xs ! i)))
       - length (deque_of clone (pool_key_of (xs ! i))) + occ xs i"

text \<open>The state after a sequence of calls of \<open>get_static_inputs\<close>.\<close>

definition calls_from :: "state \<Rightarrow> tensor list list \<Rightarrow> state" where
  "calls_from s calls = fold (\<lambda>model_inputs s. snd (get_static_inputs s model_inputs)) calls s"

text \<open>
  Concrete inputs: the state of a fresh process whose allocator starts at \<open>p\<close> and
  whose memory holds at every address the address itself, and a contiguous
  one-dimensional tensor of \<open>n\<close> elements on a storage of its own at \<open>p\<close>.
\<close>

definition initial_state :: "nat \<Rightarrow> state" where
  "initial_state p =
     \<lparr>static_inputs_pool = Map.empty, next_ptr = p, memory = (\<lambda>a. int a), trace = []\<rparr>"

definition contiguous :: "dtype \<Rightarrow> nat \<Rightarrow> nat \<Rightarrow> tensor" where
  "contiguous dt p n =
     \<lparr>dtype = dt, device = 0, storage_ptr = p, storage_nbytes = n * itemsize dt,
      storage_offset = 0, shape = [n], stride = [1]\<rparr>"

text \<open>
  The extent of a tensor is the range of addresses of its storage; an allocation of no
  bytes still takes an address of its own.  A tensor is well formed when its first
  address and all its elements lie inside its storage and the storage is at most
  \<open>2 ^ 64\<close> bytes long.
\<close>

definition extent :: "tensor \<Rightarrow> nat set" where
  "extent t = {storage_ptr t ..< storage_ptr t + max 1 (storage_nbytes t)}"


text \<open>
  The invariant of the pool: a buffer in the queue of a key is a tensor as \<open>torch.empty\<close>
  made it for that key, on a storage below the allocator's next address, and the
  storages of two buffers at different places of the pool do not overlap.
  \<open>pool_extent\<close> is the memory taken by the pooled buffers, and an input is separate
  from the pool when its storage was allocated before and does not overlap that memory.
\<close>

definition pool_wf :: "state \<Rightarrow> bool" where
  "pool_wf s \<longleftrightarrow>
     (\<forall>k. \<forall>b \<in> set (deque_of (static_inputs_pool s) k).
        storage_offset b = 0 \<and> dtype b = snd k \<and>
        storage_nbytes b = nat (fst k) * itemsize (snd k) \<and>
        storage_ptr b + max 1 (storage_nbytes b) \<le> next_ptr s) \<and>
     (\<forall>k k' i j. i < length (deque_of (static_inputs_pool s) k) \<longrightarrow>
        j < length (deque_of (static_inputs_pool s) k') \<longrightarrow> (k, i) \<noteq> (k', j) \<longrightarrow>
        extent (deque_of (static_inputs_pool s) k ! i)
          \<inter> extent (deque_of (static_inputs_pool s) k' ! j) = {})"

definition pool_extent :: "state \<Rightarrow> nat set" where
  "pool_extent s = (\<Union>k. \<Union>b \<in> set (deque_of (static_inputs_pool s) k). extent b)"

definition separate :: "state \<Rightarrow> tensor \<Rightarrow> bool" where
  "separate s x \<longleftrightarrow> extent x \<subseteq> {..<next_ptr s} \<and> extent x \<inter> pool_extent s = {}"


text \<open>
  Reading a trace: the number of calls of the capture primitive, the functions that
  were replayed, and for every capture the number of inputs it was given with the
  static indices it was given.  \<open>new_events s s'\<close> are the events added between two
  states.
\<close>

fun is_capture :: "event \<Rightarrow> bool" where
  "is_capture (Capture bound idxs) = True"
| "is_capture _ = False"

definition captures :: "event list \<Rightarrow> nat" where
  "captures tr = length (filter is_capture tr)"

fun replayed_fns :: "event list \<Rightarrow> nat list" where
  "replayed_fns [] = []"
| "replayed_fns (Replay f bound # tr) = f # replayed_fns tr"
| "replayed_fns (_ # tr) = replayed_fns tr"

fun capture_log :: "event list \<Rightarrow> (nat \<times> nat list) list" where
  "capture_log [] = []"
| "capture_log (Capture bound idxs # tr) = (length bound, idxs) # capture_log tr"
| "capture_log (_ # tr) = capture_log tr"

definition new_events :: "state \<Rightarrow> state \<Rightarrow> event list" where
  "new_events s s' = drop (length (trace s)) (trace s')"

text \<open>
  More concrete inputs: collaborators that never raise, a pool with two buffers under one
  key, and the result of a first call on one \<open>uint8\<close> tensor of four elements.
\<close>

definition never :: raise_fn where
  "never tr ev = False"

definition two_buffer_state :: state where
  "two_buffer_state =
     \<lparr>static_inputs_pool =
        [(512, Float32) \<mapsto> [contiguous Float32 4096 512, contiguous Float32 6144 512]],
      next_ptr = 8192, memory = (\<lambda>a. int a), trace = []\<rparr>"



section \<open>\<open>next_power_of_2\<close> rounds up to a power of two\<close>








section \<open>Invariants of the binding loop\<close>

lemma data_ptr_bound_view: "data_ptr (bound_view b x) = data_ptr b"
  by (simp add: bound_view_def as_strided_def data_ptr_def)

lemma written_simps [simp]:
  "static_inputs_pool (written s b x) = static_inputs_pool s"
  "next_ptr (written s b x) = next_ptr s"
  "trace (written s b x) = trace s"
  "memory (written s b x) = copy_into (memory s) (bound_view b x) x"
  by (simp_all add: written_def)

lemma bind_loop_hit:
  "deque_of clone (pool_key_of x) = b # q \<Longrightarrow>
   bind_loop s clone acc (x # rest) =
     bind_loop (written s b x) (clone(pool_key_of x \<mapsto> q)) (acc @ [bound_view b x]) rest"
  by (simp add: pool_key_of_def bound_view_def data_ptr_def as_strided_def written_def Let_def)

lemma bind_loop_miss:
  "deque_of clone (pool_key_of x) = [] \<Longrightarrow>
   bind_loop s clone acc (x # rest) =
     bind_loop (written (register s x) (fresh_buffer s x) x) (clone(pool_key_of x \<mapsto> []))
       (acc @ [bound_view (fresh_buffer s x) x]) rest"
  by (simp add: pool_key_of_def bound_view_def data_ptr_def as_strided_def written_def
    register_def fresh_buffer_def torch_empty_def Let_def)

lemma bind_loop_returns: "\<exists>outs s'. bind_loop s clone acc xs = (Inr outs, s')"
proof (induction xs arbitrary: s clone acc)
  case Nil
  then show ?case by simp
next
  case (Cons x xs)
  show ?case
  proof (cases "deque_of clone (pool_key_of x)")
    case Nil
    then show ?thesis using Cons.IH by (simp only: bind_loop_miss)
  next
    case (Cons b q)
    then show ?thesis using Cons.IH by (simp only: bind_loop_hit)
  qed
qed

lemma deque_of_upd: "deque_of (m(k \<mapsto> q)) k' = (if k' = k then q else deque_of m k')"
  by (simp add: deque_of_def)

lemma deque_of_upd_eta:
  "deque_of (\<lambda>a. if a = k then Some q else m a) k' = (if k' = k then q else deque_of m k')"
  by (simp add: deque_of_def)

lemmas deque_of_upds = deque_of_upd deque_of_upd_eta

lemma pool_register:
  "deque_of (static_inputs_pool (register s x)) k =
     (if k = pool_key_of x then deque_of (static_inputs_pool s) k @ [fresh_buffer s x]
      else deque_of (static_inputs_pool s) k)"
  by (simp add: register_def fresh_buffer_def torch_empty_def Let_def deque_of_def)

lemma next_ptr_register: "next_ptr s < next_ptr (register s x)"
  by (simp add: register_def torch_empty_def Let_def)

lemma trace_register: "trace (register s x) = trace s"
  by (simp add: register_def torch_empty_def Let_def)


lemma bind_loop_induct [consumes 1, case_names Nil Hit Miss]:
  assumes run: "bind_loop s clone acc xs = (Inr outs, s')"
    and nil: "\<And>s clone acc. P s clone acc [] s acc"
    and hit: "\<And>s clone acc x rest b q s' outs.
        deque_of clone (pool_key_of x) = b # q \<Longrightarrow>
        bind_loop (written s b x) (clone(pool_key_of x \<mapsto> q)) (acc @ [bound_view b x]) rest = (Inr outs, s') \<Longrightarrow>
        P (written s b x) (clone(pool_key_of x \<mapsto> q)) (acc @ [bound_view b x]) rest s' outs \<Longrightarrow>
        P s clone acc (x # rest) s' outs"
    and miss: "\<And>s clone acc x rest s' outs.
        deque_of clone (pool_key_of x) = [] \<Longrightarrow>
        bind_loop (written (register s x) (fresh_buffer s x) x) (clone(pool_key_of x \<mapsto> []))
          (acc @ [bound_view (fresh_buffer s x) x]) rest = (Inr outs, s') \<Longrightarrow>
        P (written (register s x) (fresh_buffer s x) x) (clone(pool_key_of x \<mapsto> []))
          (acc @ [bound_view (fresh_buffer s x) x]) rest s' outs \<Longrightarrow>
        P s clone acc (x # rest) s' outs"
  shows "P s clone acc xs s' outs"
  using run
proof (induction xs arbitrary: s clone acc)
  case Nil
  then show ?case using nil by simp
next
  case (Cons x xs)
  show ?case
  proof (cases "deque_of clone (pool_key_of x)")
    case Nil
    with Cons.prems have "bind_loop (written (register s x) (fresh_buffer s x) x) (clone(pool_key_of x \<mapsto> []))
          (acc @ [bound_view (fresh_buffer s x) x]) xs = (Inr outs, s')"
      by (simp only: bind_loop_miss)
    with Nil show ?thesis using miss Cons.IH by blast
  next
    case (Cons b q)
    with Cons.prems have "bind_loop (written s b x) (clone(pool_key_of x \<mapsto> q)) (acc @ [bound_view b x]) xs = (Inr outs, s')"
      by (simp only: bind_loop_hit)
    with Cons show ?thesis using hit Cons.IH by blast
  qed
qed

lemma bind_loop_length:
  "bind_loop s clone acc xs = (Inr outs, s') \<Longrightarrow>
   length outs = length acc + length xs \<and> take (length acc) outs = acc"
proof (induction s clone acc xs s' outs rule: bind_loop_induct)
  case (Nil s clone acc)
  then show ?case by simp
next
  case (Hit s clone acc x rest b q s' outs)
  then show ?case by (auto simp: take_Suc_conv_app_nth dest: arg_cong[where f="take (length acc)"])
next
  case (Miss s clone acc x rest s' outs)
  then show ?case by (auto dest: arg_cong[where f="take (length acc)"])
qed

lemma bind_loop_trace: "bind_loop s clone acc xs = (Inr outs, s') \<Longrightarrow> trace s' = trace s"
  by (induction s clone acc xs s' outs rule: bind_loop_induct) (simp_all add: trace_register)

lemma bind_loop_next_ptr: "bind_loop s clone acc xs = (Inr outs, s') \<Longrightarrow> next_ptr s \<le> next_ptr s'"
proof (induction s clone acc xs s' outs rule: bind_loop_induct)
  case (Miss s clone acc x rest s' outs)
  then show ?case using next_ptr_register[of s x] by simp
qed simp_all

lemma bind_loop_appends:
  "bind_loop s clone acc xs = (Inr outs, s') \<Longrightarrow>
   \<exists>ys. deque_of (static_inputs_pool s') k = deque_of (static_inputs_pool s) k @ ys"
proof (induction s clone acc xs s' outs rule: bind_loop_induct)
  case (Miss s clone acc x rest s' outs)
  then show ?case by (auto simp: pool_register split: if_splits)
qed simp_all

lemma bind_loop_count:
  "bind_loop s clone acc xs = (Inr outs, s') \<Longrightarrow>
   length (deque_of (static_inputs_pool s') k) =
     length (deque_of (static_inputs_pool s) k) + (demand xs k - length (deque_of clone k))"
proof (induction s clone acc xs s' outs rule: bind_loop_induct)
  case (Nil s clone acc)
  then show ?case by (simp add: demand_def)
next
  case (Hit s clone acc x rest b q s' outs)
  then show ?case by (cases "k = pool_key_of x") (simp_all add: demand_def deque_of_upds)
next
  case (Miss s clone acc x rest s' outs)
  then show ?case by (cases "k = pool_key_of x") (simp_all add: demand_def deque_of_upds pool_register)
qed

lemma snapshot_inv_refl: "snapshot_inv s (static_inputs_pool s)"
  by (simp add: snapshot_inv_def)

lemma snapshot_inv_hit:
  assumes "snapshot_inv s clone" "deque_of clone k0 = b # q"
  shows "snapshot_inv s (clone(k0 \<mapsto> q))"
  unfolding snapshot_inv_def
proof
  fix k
  from assms(1) obtain pre where pre: "deque_of (static_inputs_pool s) k = pre @ deque_of clone k"
    unfolding snapshot_inv_def by blast
  show "\<exists>pre. deque_of (static_inputs_pool s) k = pre @ deque_of (clone(k0 \<mapsto> q)) k"
  proof (cases "k = k0")
    case True
    then have "deque_of (static_inputs_pool s) k = (pre @ [b]) @ deque_of (clone(k0 \<mapsto> q)) k"
      using pre assms(2) by (simp add: deque_of_upd)
    then show ?thesis by blast
  next
    case False
    then show ?thesis using pre by (simp add: deque_of_upd)
  qed
qed

lemma snapshot_inv_miss:
  assumes "snapshot_inv s clone" "deque_of clone (pool_key_of x) = []"
  shows "snapshot_inv (register s x) (clone(pool_key_of x \<mapsto> []))"
  unfolding snapshot_inv_def
proof
  fix k
  from assms(1) obtain pre where pre: "deque_of (static_inputs_pool s) k = pre @ deque_of clone k"
    unfolding snapshot_inv_def by blast
  show "\<exists>pre. deque_of (static_inputs_pool (register s x)) k =
          pre @ deque_of (clone(pool_key_of x \<mapsto> [])) k"
    using pre by (cases "k = pool_key_of x") (simp_all add: deque_of_upd pool_register)
qed

lemma snapshot_inv_length:
  "snapshot_inv s clone \<Longrightarrow>
   length (deque_of clone k) \<le> length (deque_of (static_inputs_pool s) k)"
proof -
  assume "snapshot_inv s clone"
  then obtain pre where "deque_of (static_inputs_pool s) k = pre @ deque_of clone k"
    unfolding snapshot_inv_def by blast
  then show ?thesis by simp
qed

lemma snapshot_inv_nth:
  "snapshot_inv s clone \<Longrightarrow> deque_of clone k = b # q \<Longrightarrow>
   (deque_of (static_inputs_pool s) k @ ys) !
     (length (deque_of (static_inputs_pool s) k) - length (deque_of clone k)) = b"
proof -
  assume inv: "snapshot_inv s clone" and c: "deque_of clone k = b # q"
  from inv obtain pre where pre: "deque_of (static_inputs_pool s) k = pre @ deque_of clone k"
    unfolding snapshot_inv_def by blast
  then have "length (deque_of (static_inputs_pool s) k) - length (deque_of clone k) = length pre"
    by simp
  moreover have "(deque_of (static_inputs_pool s) k @ ys) ! length pre = b"
    by (simp add: pre c nth_append)
  ultimately show ?thesis by simp
qed

lemma snapshot_inv_written [simp]: "snapshot_inv (written s b x) c = snapshot_inv s c"
  by (simp add: snapshot_inv_def)

lemma slot_written [simp]: "slot (written s b x) c xs i = slot s c xs i"
  by (simp add: slot_def)

lemma bind_loop_head:
  assumes "bind_loop s clone (acc @ [v]) xs = (Inr outs, s')"
  shows "outs ! length acc = v"
proof -
  from bind_loop_length[OF assms] have "take (length (acc @ [v])) outs = acc @ [v]"
    and "length acc < length outs" by simp_all
  then have "take (Suc (length acc)) outs ! length acc = v"
    by simp
  then show ?thesis by simp
qed

lemma occ_0: "occ (x # xs) 0 = 0"
  by (simp add: occ_def demand_def)

lemma occ_Suc:
  "occ (x # xs) (Suc i) =
     (if pool_key_of x = pool_key_of (xs ! i) then Suc (occ xs i) else occ xs i)"
  by (simp add: occ_def demand_def)

lemma bind_loop_nth:
  assumes "bind_loop s clone acc xs = (Inr outs, s')"
    and "snapshot_inv s clone" and "i < length xs"
  shows "slot s clone xs i < length (deque_of (static_inputs_pool s') (pool_key_of (xs ! i))) \<and>
         outs ! (length acc + i) =
           bound_view (deque_of (static_inputs_pool s') (pool_key_of (xs ! i)) ! slot s clone xs i)
             (xs ! i)"
  using assms
proof (induction s clone acc xs s' outs arbitrary: i rule: bind_loop_induct)
  case (Nil s clone acc)
  then show ?case by simp
next
  case (Hit s clone acc x rest b q s' outs)
  let ?k0 = "pool_key_of x"
  obtain ys where ys: "deque_of (static_inputs_pool s') ?k0 = deque_of (static_inputs_pool s) ?k0 @ ys"
    using bind_loop_appends[OF Hit.hyps(2), of ?k0] by auto
  have len: "length (deque_of clone ?k0) \<le> length (deque_of (static_inputs_pool s) ?k0)"
    using Hit.prems(1) by (rule snapshot_inv_length)
  show ?case
  proof (cases i)
    case 0
    have "slot s clone (x # rest) 0 =
        length (deque_of (static_inputs_pool s) ?k0) - length (deque_of clone ?k0)"
      by (simp add: slot_def occ_0)
    moreover have "(deque_of (static_inputs_pool s) ?k0 @ ys) !
        (length (deque_of (static_inputs_pool s) ?k0) - length (deque_of clone ?k0)) = b"
      using Hit.prems(1) Hit.hyps(1) by (rule snapshot_inv_nth)
    moreover have "outs ! length acc = bound_view b x"
      using Hit.hyps(2) by (rule bind_loop_head)
    moreover have "length (deque_of (static_inputs_pool s) ?k0) - length (deque_of clone ?k0)
        < length (deque_of (static_inputs_pool s) ?k0)"
      using len Hit.hyps(1) by simp
    ultimately show ?thesis using 0 ys by simp
  next
    case (Suc i')
    then have i': "i' < length rest" using Hit.prems(2) by simp
    have inv': "snapshot_inv s (clone(?k0 \<mapsto> q))"
      using Hit.prems(1) Hit.hyps(1) by (rule snapshot_inv_hit)
    have "slot s (clone(?k0 \<mapsto> q)) rest i' = slot s clone (x # rest) (Suc i')"
    proof (cases "pool_key_of (rest ! i') = ?k0")
      case True
      then show ?thesis using len Hit.hyps(1) by (simp add: slot_def occ_Suc deque_of_upd)
    next
      case False
      then have "?k0 \<noteq> pool_key_of (rest ! i')" by simp
      with False show ?thesis by (simp add: slot_def occ_Suc deque_of_upd)
    qed
    moreover have inv'': "snapshot_inv (written s b x) (clone(?k0 \<mapsto> q))"
      using inv' by simp
    have "slot (written s b x) (clone(?k0 \<mapsto> q)) rest i'
          < length (deque_of (static_inputs_pool s') (pool_key_of (rest ! i'))) \<and>
        outs ! (length (acc @ [bound_view b x]) + i') =
          bound_view (deque_of (static_inputs_pool s') (pool_key_of (rest ! i')) !
             slot (written s b x) (clone(?k0 \<mapsto> q)) rest i') (rest ! i')"
      by (rule Hit.IH[OF inv'' i'])
    ultimately show ?thesis using Suc by simp
  qed
next
  case (Miss s clone acc x rest s' outs)
  let ?k0 = "pool_key_of x"
  obtain ys where ys: "deque_of (static_inputs_pool s') ?k0 =
      deque_of (static_inputs_pool (register s x)) ?k0 @ ys"
    using bind_loop_appends[OF Miss.hyps(2), of ?k0] by auto
  show ?case
  proof (cases i)
    case 0
    have "slot s clone (x # rest) 0 = length (deque_of (static_inputs_pool s) ?k0)"
      using Miss.hyps(1) by (simp add: slot_def occ_0)
    moreover have "outs ! length acc = bound_view (fresh_buffer s x) x"
      using Miss.hyps(2) by (rule bind_loop_head)
    ultimately show ?thesis using 0 ys by (simp add: pool_register nth_append)
  next
    case (Suc i')
    then have i': "i' < length rest" using Miss.prems(2) by simp
    have inv': "snapshot_inv (register s x) (clone(?k0 \<mapsto> []))"
      using Miss.prems(1) Miss.hyps(1) by (rule snapshot_inv_miss)
    have len: "length (deque_of clone k) \<le> length (deque_of (static_inputs_pool s) k)" for k
      using Miss.prems(1) by (rule snapshot_inv_length)
    have "slot (register s x) (clone(?k0 \<mapsto> [])) rest i' = slot s clone (x # rest) (Suc i')"
    proof (cases "pool_key_of (rest ! i') = ?k0")
      case True
      then show ?thesis using len[of ?k0] Miss.hyps(1)
        by (simp add: slot_def occ_Suc deque_of_upd pool_register)
    next
      case False
      then have "?k0 \<noteq> pool_key_of (rest ! i')" by simp
      with False show ?thesis by (simp add: slot_def occ_Suc deque_of_upd pool_register)
    qed
    moreover have inv'': "snapshot_inv (written (register s x) (fresh_buffer s x) x)
        (clone(?k0 \<mapsto> []))"
      using inv' by simp
    have "slot (written (register s x) (fresh_buffer s x) x) (clone(?k0 \<mapsto> [])) rest i'
          < length (deque_of (static_inputs_pool s') (pool_key_of (rest ! i'))) \<and>
        outs ! (length (acc @ [bound_view (fresh_buffer s x) x]) + i') =
          bound_view (deque_of (static_inputs_pool s') (pool_key_of (rest ! i')) !
             slot (written (register s x) (fresh_buffer s x) x) (clone(?k0 \<mapsto> [])) rest i')
            (rest ! i')"
      by (rule Miss.IH[OF inv'' i'])
    ultimately show ?thesis using Suc by simp
  qed
qed

lemma get_static_inputs_returns: "\<exists>outs s'. get_static_inputs s xs = (Inr outs, s')"
  unfolding get_static_inputs_def by (rule bind_loop_returns)



lemma get_static_inputs_nth:
  assumes "get_static_inputs s xs = (Inr outs, s')" "i < length xs"
  shows "occ xs i < length (deque_of (static_inputs_pool s') (pool_key_of (xs ! i)))"
    and "outs ! i = bound_view (deque_of (static_inputs_pool s') (pool_key_of (xs ! i)) ! occ xs i) (xs ! i)"
  using bind_loop_nth[OF assms(1)[unfolded get_static_inputs_def] snapshot_inv_refl assms(2)]
  by (simp_all add: slot_def)

lemma get_static_inputs_length:
  "get_static_inputs s xs = (Inr outs, s') \<Longrightarrow> length outs = length xs"
  unfolding get_static_inputs_def by (drule bind_loop_length) simp

lemma get_static_inputs_count:
  "get_static_inputs s xs = (Inr outs, s') \<Longrightarrow>
   length (deque_of (static_inputs_pool s') k) =
     length (deque_of (static_inputs_pool s) k) + (demand xs k - length (deque_of (static_inputs_pool s) k))"
  unfolding get_static_inputs_def by (rule bind_loop_count)

lemma get_static_inputs_appends:
  "get_static_inputs s xs = (Inr outs, s') \<Longrightarrow>
   \<exists>ys. deque_of (static_inputs_pool s') k = deque_of (static_inputs_pool s) k @ ys"
  unfolding get_static_inputs_def by (rule bind_loop_appends)

section \<open>Positions, demand and reuse\<close>

lemma occ_less_demand:
  "i < length xs \<Longrightarrow> occ xs i < demand xs (pool_key_of (xs ! i))"
proof -
  assume i: "i < length xs"
  let ?P = "\<lambda>x. pool_key_of x = pool_key_of (xs ! i)"
  have "xs = take i xs @ xs ! i # drop (Suc i) xs" using i by (simp add: id_take_nth_drop)
  then have "filter ?P xs = filter ?P (take i xs) @ filter ?P (xs ! i # drop (Suc i) xs)"
    by (metis filter_append)
  then have "length (filter ?P xs) = length (filter ?P (take i xs)) + length (filter ?P (xs ! i # drop (Suc i) xs))"
    by simp
  then show ?thesis by (simp add: occ_def demand_def)
qed

lemma occ_mono:
  assumes "i < j" "j < length xs" "pool_key_of (xs ! i) = pool_key_of (xs ! j)"
  shows "occ xs i < occ xs j"
proof -
  have "occ (take j xs) i < demand (take j xs) (pool_key_of (take j xs ! i))"
    using assms(1,2) by (intro occ_less_demand) simp
  moreover have "take i (take j xs) = take i xs" using assms(1) by (simp add: min_def)
  ultimately show ?thesis using assms by (simp add: occ_def)
qed


lemma demand_keys:
  assumes "map pool_key_of ys = map pool_key_of xs"
  shows "demand ys k = demand xs k"
proof -
  have "filter (\<lambda>k'. k' = k) (map pool_key_of ys) = filter (\<lambda>k'. k' = k) (map pool_key_of xs)"
    using assms by simp
  then have "length (filter ((\<lambda>k'. k' = k) \<circ> pool_key_of) ys) =
      length (filter ((\<lambda>k'. k' = k) \<circ> pool_key_of) xs)"
    unfolding filter_map by (metis length_map)
  then show ?thesis by (simp add: demand_def comp_def)
qed

lemma get_static_inputs_reuse:
  assumes "get_static_inputs s xs = (Inr outs, s')"
    and "demand xs k \<le> length (deque_of (static_inputs_pool s) k)"
  shows "deque_of (static_inputs_pool s') k = deque_of (static_inputs_pool s) k"
proof -
  obtain ys where ys: "deque_of (static_inputs_pool s') k = deque_of (static_inputs_pool s) k @ ys"
    using get_static_inputs_appends[OF assms(1)] by blast
  moreover have "length (deque_of (static_inputs_pool s') k) = length (deque_of (static_inputs_pool s) k)"
    using get_static_inputs_count[OF assms(1), of k] assms(2) by simp
  ultimately show ?thesis by simp
qed

lemma get_static_inputs_enough:
  assumes "get_static_inputs s xs = (Inr outs, s')"
  shows "demand xs k \<le> length (deque_of (static_inputs_pool s') k)"
  using get_static_inputs_count[OF assms, of k] by simp

lemma get_static_inputs_old:
  assumes "get_static_inputs s xs = (Inr outs, s')" "i < length xs"
    and "occ xs i < length (deque_of (static_inputs_pool s) (pool_key_of (xs ! i)))"
  shows "outs ! i = bound_view (deque_of (static_inputs_pool s) (pool_key_of (xs ! i)) ! occ xs i) (xs ! i)"
proof -
  obtain ys where "deque_of (static_inputs_pool s') (pool_key_of (xs ! i)) =
      deque_of (static_inputs_pool s) (pool_key_of (xs ! i)) @ ys"
    using get_static_inputs_appends[OF assms(1)] by blast
  then show ?thesis using get_static_inputs_nth(2)[OF assms(1,2)] assms(3) by (simp add: nth_append)
qed

lemma calls_from_mono:
  "length (deque_of (static_inputs_pool s) k) \<le> length (deque_of (static_inputs_pool (calls_from s calls)) k)"
proof (induction calls arbitrary: s)
  case Nil
  then show ?case by (simp add: calls_from_def)
next
  case (Cons xs calls)
  obtain outs s' where r: "get_static_inputs s xs = (Inr outs, s')"
    using get_static_inputs_returns by blast
  have "length (deque_of (static_inputs_pool s) k) \<le> length (deque_of (static_inputs_pool s') k)"
    using get_static_inputs_count[OF r, of k] by simp
  also have "\<dots> \<le> length (deque_of (static_inputs_pool (calls_from s' calls)) k)"
    by (rule Cons.IH)
  finally show ?case using r by (simp add: calls_from_def)
qed

lemma key_f32_100: "pool_key_of (contiguous Float32 p 100) = (512, Float32)"
  by (simp add: pool_key_of_def contiguous_def untyped_storage_len_def next_power_of_2_def smear_def)

lemma key_f32_120: "pool_key_of (contiguous Float32 p 120) = (512, Float32)"
  by (simp add: pool_key_of_def contiguous_def untyped_storage_len_def next_power_of_2_def smear_def)



section \<open>Copying through the memory\<close>







section \<open>The pool invariant and fresh addresses\<close>






lemma pool_wf_written [simp]: "pool_wf (written s b x) = pool_wf s"
  by (simp add: pool_wf_def)

lemma pool_extent_written [simp]: "pool_extent (written s b x) = pool_extent s"
  by (simp add: pool_extent_def)

lemma separate_written [simp]: "separate (written s b x) y = separate s y"
  by (simp add: separate_def)

lemma fresh_buffer_fields:
  "storage_offset (fresh_buffer s x) = 0" "dtype (fresh_buffer s x) = dtype x"
  "storage_ptr (fresh_buffer s x) = next_ptr s"
  "storage_nbytes (fresh_buffer s x) = nat (fst (pool_key_of x)) * itemsize (dtype x)"
  "snd (pool_key_of x) = dtype x"
  by (simp_all add: fresh_buffer_def torch_empty_def pool_key_of_def)

lemma next_ptr_register_eq:
  "next_ptr (register s x) = next_ptr s + max 1 (storage_nbytes (fresh_buffer s x))"
  by (simp add: register_def fresh_buffer_def torch_empty_def Let_def pool_key_of_def)

lemma extent_fresh_buffer:
  "extent (fresh_buffer s x) = {next_ptr s ..< next_ptr (register s x)}"
  by (simp add: extent_def next_ptr_register_eq fresh_buffer_fields)

lemma pool_wf_extent_below:
  assumes "pool_wf s" "b \<in> set (deque_of (static_inputs_pool s) k)"
  shows "extent b \<subseteq> {..<next_ptr s}"
proof -
  have "storage_ptr b + max 1 (storage_nbytes b) \<le> next_ptr s"
    using assms unfolding pool_wf_def by blast
  then show ?thesis by (auto simp: extent_def)
qed

lemma pool_wf_register:
  assumes "pool_wf s"
  shows "pool_wf (register s x)"
proof -
  let ?k0 = "pool_key_of x" and ?t = "fresh_buffer s x"
  let ?dq = "\<lambda>k. deque_of (static_inputs_pool s) k"
  let ?dq' = "\<lambda>k. deque_of (static_inputs_pool (register s x)) k"
  have np: "next_ptr s \<le> next_ptr (register s x)" using next_ptr_register[of s x] by simp
  have old: "storage_offset b = 0 \<and> dtype b = snd k \<and>
        storage_nbytes b = nat (fst k) * itemsize (snd k) \<and>
        storage_ptr b + max 1 (storage_nbytes b) \<le> next_ptr s"
    if "b \<in> set (?dq k)" for b k
    using assms that unfolding pool_wf_def by blast
  have new: "storage_offset ?t = 0 \<and> dtype ?t = snd ?k0 \<and>
        storage_nbytes ?t = nat (fst ?k0) * itemsize (snd ?k0) \<and>
        storage_ptr ?t + max 1 (storage_nbytes ?t) \<le> next_ptr (register s x)"
    by (simp add: fresh_buffer_fields next_ptr_register_eq)
  have 1: "storage_offset b = 0 \<and> dtype b = snd k \<and>
        storage_nbytes b = nat (fst k) * itemsize (snd k) \<and>
        storage_ptr b + max 1 (storage_nbytes b) \<le> next_ptr (register s x)"
    if b: "b \<in> set (?dq' k)" for b k
  proof (cases "b \<in> set (?dq k)")
    case True
    then show ?thesis using old[of b k] np by auto
  next
    case False
    then have "k = ?k0" "b = ?t" using b by (auto simp: pool_register split: if_splits)
    then show ?thesis using new by auto
  qed
  have ext_old: "extent (?dq k ! i) \<subseteq> {..<next_ptr s}" if "i < length (?dq k)" for k i
    using pool_wf_extent_below[OF assms] that by (meson nth_mem)
  have nth': "?dq' k ! i = (if k = ?k0 \<and> i = length (?dq ?k0) then ?t else ?dq k ! i)"
    if "i < length (?dq' k)" for k i
    using that by (auto simp: pool_register nth_append split: if_splits)
  have len': "i < length (?dq k) \<or> (k = ?k0 \<and> i = length (?dq ?k0))"
    if "i < length (?dq' k)" for k i
    using that by (auto simp: pool_register split: if_splits)
  have 2: "extent (?dq' k ! i) \<inter> extent (?dq' k' ! j) = {}"
    if i: "i < length (?dq' k)" and j: "j < length (?dq' k')" and ne: "(k, i) \<noteq> (k', j)"
    for k k' i j
  proof -
    consider (oo) "i < length (?dq k)" "j < length (?dq k')"
      | (no) "k = ?k0 \<and> i = length (?dq ?k0)" "j < length (?dq k')"
      | (on) "i < length (?dq k)" "k' = ?k0 \<and> j = length (?dq ?k0)"
      using len'[OF i] len'[OF j] ne by auto
    then show ?thesis
    proof cases
      case oo
      then have "?dq' k ! i = ?dq k ! i" "?dq' k' ! j = ?dq k' ! j"
        using nth'[OF i] nth'[OF j] by auto
      moreover have "extent (?dq k ! i) \<inter> extent (?dq k' ! j) = {}"
        using assms oo ne unfolding pool_wf_def by blast
      ultimately show ?thesis by simp
    next
      case no
      then have "?dq' k ! i = ?t" "?dq' k' ! j = ?dq k' ! j"
        using nth'[OF i] nth'[OF j] by auto
      then show ?thesis using ext_old[OF no(2)] by (auto simp: extent_fresh_buffer)
    next
      case on
      then have "?dq' k ! i = ?dq k ! i" "?dq' k' ! j = ?t"
        using nth'[OF i] nth'[OF j] by auto
      then show ?thesis using ext_old[OF on(1)] by (auto simp: extent_fresh_buffer)
    qed
  qed
  show ?thesis unfolding pool_wf_def using 1 2 by blast
qed


lemma bind_loop_wf:
  "bind_loop s clone acc xs = (Inr outs, s') \<Longrightarrow> pool_wf s \<Longrightarrow> pool_wf s'"
  by (induction s clone acc xs s' outs rule: bind_loop_induct) (simp_all add: pool_wf_register)

lemma get_static_inputs_wf:
  "get_static_inputs s xs = (Inr outs, s') \<Longrightarrow> pool_wf s \<Longrightarrow> pool_wf s'"
  unfolding get_static_inputs_def by (rule bind_loop_wf)

lemma calls_from_wf: "pool_wf s \<Longrightarrow> pool_wf (calls_from s calls)"
proof (induction calls arbitrary: s)
  case Nil
  then show ?case by (simp add: calls_from_def)
next
  case (Cons xs calls)
  obtain outs s' where r: "get_static_inputs s xs = (Inr outs, s')"
    using get_static_inputs_returns by blast
  then have "pool_wf s'" using Cons.prems by (rule get_static_inputs_wf)
  then have "pool_wf (calls_from s' calls)" by (rule Cons.IH)
  then show ?case using r by (simp add: calls_from_def)
qed





section \<open>What a call writes and what the bound tensors hold\<close>













section \<open>Traces of the wrapper\<close>

lemma get_static_inputs_trace:
  "get_static_inputs s xs = (Inr outs, s') \<Longrightarrow> trace s' = trace s"
  unfolding get_static_inputs_def by (rule bind_loop_trace)

lemma external_trace: "external raises s ev = (r, s') \<Longrightarrow> trace s' = trace s @ [ev]"
  by (auto simp: external_def)

lemma external_cases:
  obtains s' where "external raises s ev = (Inl ExternalError, s')" "trace s' = trace s @ [ev]"
  | s' where "external raises s ev = (Inr (), s')" "trace s' = trace s @ [ev]"
  by (cases "raises (trace s) ev") (auto simp: external_def)

lemma replayed_fns_append: "replayed_fns (xs @ ys) = replayed_fns xs @ replayed_fns ys"
  by (induction xs rule: replayed_fns.induct) simp_all

lemma capture_log_append: "capture_log (xs @ ys) = capture_log xs @ capture_log ys"
  by (induction xs rule: capture_log.induct) simp_all

lemma captures_append: "captures (xs @ ys) = captures xs + captures ys"
  by (simp add: captures_def)

lemma invoke_cached:
  "\<exists>r s' bound. invoke raises s (DeferredFn xs (Some f)) args = (r, s', DeferredFn xs (Some f)) \<and>
     trace s' = trace s @ [Replay f bound] \<and> length bound = length args"
proof -
  obtain bound s1 where g: "get_static_inputs s args = (Inr bound, s1)"
    using get_static_inputs_returns by blast
  have t1: "trace s1 = trace s" using g by (rule get_static_inputs_trace)
  have l: "length bound = length args" using g by (rule get_static_inputs_length)
  obtain r s2 where e: "external raises s1 (Replay f bound) = (r, s2)" by fastforce
  then have "trace s2 = trace s @ [Replay f bound]" using external_trace t1 by fastforce
  moreover have "invoke raises s (DeferredFn xs (Some f)) args = (r, s2, DeferredFn xs (Some f))"
    using g e by simp
  ultimately show ?thesis using l by blast
qed


lemma invoke_first:
  assumes "invoke raises s (DeferredFn xs None) args = (Inr (), s1, c1)"
  shows "\<exists>bound. c1 = DeferredFn xs (Some (Suc (length (trace s)))) \<and>
     length bound = length args \<and>
     trace s1 = trace s @ [ModelCall bound, Capture bound [0..<length xs],
        Replay (Suc (length (trace s))) bound]"
proof -
  obtain bound g1 where g: "get_static_inputs s args = (Inr bound, g1)"
    using get_static_inputs_returns by blast
  have t1: "trace g1 = trace s" using g by (rule get_static_inputs_trace)
  have l: "length bound = length args" using g by (rule get_static_inputs_length)
  show ?thesis
  proof (cases rule: external_cases[of raises g1 "ModelCall bound"])
    case (1 s2)
    then show ?thesis using assms g by simp
  next
    case m: (2 s2)
    show ?thesis
    proof (cases rule: external_cases[of raises s2 "Capture bound [0..<length xs]"])
      case (1 s3)
      then show ?thesis using assms g m by simp
    next
      case c: (2 s3)
      obtain r s4 where e: "external raises s3 (Replay (length (trace s2)) bound) = (r, s4)"
        by fastforce
      have t4: "trace s4 = trace s3 @ [Replay (length (trace s2)) bound]"
        using e by (rule external_trace)
      have "invoke raises s (DeferredFn xs None) args
          = (r, s4, DeferredFn xs (Some (length (trace s2))))"
        using g m c e by simp
      with assms have "s1 = s4" "c1 = DeferredFn xs (Some (length (trace s2)))" by simp_all
      then show ?thesis using t4 c(2) m(2) t1 l by auto
    qed
  qed
qed

lemma eager_branch_events:
  assumes "eager_branch raises s xs = (r, s')"
  shows "\<exists>bound. length bound = length xs \<and>
     (trace s' = trace s @ [ModelCall bound] \<and> r = Inl ExternalError \<or>
      trace s' = trace s @ [ModelCall bound, Capture bound [0..<length bound]] \<and>
        (r = Inl ExternalError \<or> r = Inr (EagerFn (Suc (length (trace s))))))"
proof -
  obtain bound g1 where g: "get_static_inputs s (map tensor_of xs) = (Inr bound, g1)"
    using get_static_inputs_returns by blast
  have t1: "trace g1 = trace s" using g by (rule get_static_inputs_trace)
  have l: "length bound = length xs" using get_static_inputs_length[OF g] by simp
  show ?thesis
  proof (cases rule: external_cases[of raises g1 "ModelCall bound"])
    case (1 s2)
    then show ?thesis using assms g t1 l by (auto simp: eager_branch_def)
  next
    case m: (2 s2)
    show ?thesis
    proof (cases rule: external_cases[of raises s2 "Capture bound [0..<length bound]"])
      case (1 s3)
      then show ?thesis using assms g m t1 l by (auto simp: eager_branch_def)
    next
      case (2 s3)
      then show ?thesis using assms g m t1 l by (auto simp: eager_branch_def)
    qed
  qed
qed

lemma invoke_deferred_events:
  assumes "invoke raises s (DeferredFn xs cell) args = (r, s', c')"
  shows "set (capture_log (new_events s s')) \<subseteq> {(length args, [0..<length xs])}"
proof (cases cell)
  case (Some f)
  then show ?thesis using invoke_cached[of raises s xs f args] assms
    by (auto simp: new_events_def)
next
  case None
  obtain bound g1 where g: "get_static_inputs s args = (Inr bound, g1)"
    using get_static_inputs_returns by blast
  have t1: "trace g1 = trace s" using g by (rule get_static_inputs_trace)
  have l: "length bound = length args" using g by (rule get_static_inputs_length)
  show ?thesis
  proof (cases rule: external_cases[of raises g1 "ModelCall bound"])
    case (1 s2)
    then show ?thesis using assms g t1 None by (auto simp: new_events_def)
  next
    case m: (2 s2)
    show ?thesis
    proof (cases rule: external_cases[of raises s2 "Capture bound [0..<length xs]"])
      case (1 s3)
      then show ?thesis using assms g m t1 l None by (auto simp: new_events_def)
    next
      case c: (2 s3)
      obtain r4 s4 where e: "external raises s3 (Replay (length (trace s2)) bound) = (r4, s4)"
        by fastforce
      have "trace s4 = trace s3 @ [Replay (length (trace s2)) bound]"
        using e by (rule external_trace)
      moreover have "s' = s4" using assms g m c e None by simp
      ultimately show ?thesis using c(2) m(2) t1 l by (simp add: new_events_def)
    qed
  qed
qed

lemma invoke_never_first: "fst (invoke never s (DeferredFn xs None) args) = Inr ()"
proof -
  obtain bound g1 where g: "get_static_inputs s args = (Inr bound, g1)"
    using get_static_inputs_returns by blast
  show ?thesis by (simp add: g external_def never_def)
qed

lemma eager_branch_never: "\<exists>c. fst (eager_branch never s xs) = Inr c"
proof -
  obtain bound g1 where g: "get_static_inputs s (map tensor_of xs) = (Inr bound, g1)"
    using get_static_inputs_returns by blast
  show ?thesis by (simp add: g eager_branch_def external_def never_def)
qed

section \<open>Evaluation on concrete inputs\<close>




text \<open>
  The static indices of a capture: in the eager branch they are the positions of the
  bound inputs; in the deferred branch they are the positions of the inputs the wrapper
  was built with, next to the bound inputs of the call.
\<close>

lemma capture_static_indices:
  assumes eager: "cuda_graphs_wrapper raises s inputs = (r, s')"
      "inputs = PyList xs \<or> inputs = PyTuple xs" "\<not> list_ex is_fake xs"
    and deferred: "invoke raises t (DeferredFn ys None) args = (r', t', c')"
  shows "set (capture_log (new_events s s')) \<subseteq> {(length xs, [0..<length xs])} \<and>
         ((\<exists>c. r = Inr c) \<longrightarrow> capture_log (new_events s s') = [(length xs, [0..<length xs])]) \<and>
         set (capture_log (new_events t t')) \<subseteq> {(length args, [0..<length ys])} \<and>
         (r' = Inr () \<longrightarrow> capture_log (new_events t t') = [(length args, [0..<length ys])]) \<and>
         (length args = length ys \<longrightarrow>
            set (capture_log (new_events t t')) \<subseteq> {(length args, [0..<length args])})"
proof -
  have e: "eager_branch raises s xs = (r, s')"
    using eager by (auto simp: cuda_graphs_wrapper_def)
  from eager_branch_events[OF e] obtain bound where b: "length bound = length xs"
    and ev: "trace s' = trace s @ [ModelCall bound] \<and> r = Inl ExternalError \<or>
      trace s' = trace s @ [ModelCall bound, Capture bound [0..<length bound]] \<and>
        (r = Inl ExternalError \<or> r = Inr (EagerFn (Suc (length (trace s)))))"
    by blast
  have 1: "set (capture_log (new_events s s')) \<subseteq> {(length xs, [0..<length xs])}"
    using ev b by (auto simp: new_events_def)
  have 2: "(\<exists>c. r = Inr c) \<longrightarrow> capture_log (new_events s s') = [(length xs, [0..<length xs])]"
    using ev b by (auto simp: new_events_def)
  have 3: "set (capture_log (new_events t t')) \<subseteq> {(length args, [0..<length ys])}"
    using deferred by (rule invoke_deferred_events)
  have 4: "r' = Inr () \<longrightarrow> capture_log (new_events t t') = [(length args, [0..<length ys])]"
  proof
    assume "r' = Inr ()"
    with deferred obtain bound where "length bound = length args"
      "trace t' = trace t @ [ModelCall bound, Capture bound [0..<length ys],
        Replay (Suc (length (trace t))) bound]"
      using invoke_first by blast
    then show "capture_log (new_events t t') = [(length args, [0..<length ys])]"
      by (simp add: new_events_def)
  qed
  have 5: "length args = length ys \<longrightarrow>
      set (capture_log (new_events t t')) \<subseteq> {(length args, [0..<length args])}"
    using 3 by auto
  show ?thesis using 1 2 3 4 5 by blast
qed

lemma capture_static_indices_example:
  "capture_log (new_events (initial_state 4096)
     (snd (cuda_graphs_wrapper never (initial_state 4096)
        (PyList [Tensor (contiguous Float32 0 100), Tensor (contiguous Float32 400 300)]))))
     = [(2, [0, 1])] \<and>
   capture_log (new_events (initial_state 4096)
     (fst (snd (invoke never (initial_state 4096)
        (DeferredFn [FakeTensor (contiguous Float32 0 100), FakeTensor (contiguous Float32 400 300)] None)
        [contiguous Float32 0 100, contiguous Float32 400 300]))))
     = [(2, [0, 1])]"
proof -
  let ?s = "initial_state 4096"
  let ?xs = "[Tensor (contiguous Float32 0 100), Tensor (contiguous Float32 400 300)]"
  let ?ys = "[FakeTensor (contiguous Float32 0 100), FakeTensor (contiguous Float32 400 300)]"
  let ?args = "[contiguous Float32 0 100, contiguous Float32 400 300]"
  obtain r s' where e: "cuda_graphs_wrapper never ?s (PyList ?xs) = (r, s')" by fastforce
  obtain r' t' c' where d: "invoke never ?s (DeferredFn ?ys None) ?args = (r', t', c')"
    by (metis prod.collapse)
  have rr: "\<exists>c. r = Inr c"
    using e eager_branch_never[of ?s ?xs] by (simp add: cuda_graphs_wrapper_def)
  have rr': "r' = Inr ()"
    using d invoke_never_first[of ?s ?ys ?args] by (simp del: invoke.simps)
  have u: "upt 0 2 = [0, 1]" by (simp add: upt_rec)
  from capture_static_indices[OF e _ _ d] rr rr' show ?thesis
    by (simp add: e d u del: invoke.simps)
qed

section \<open>The claims\<close>






text \<open>
  C3: for every pool key, the number of buffers in the pool's queue never decreases over
  a sequence of calls of \<open>get_static_inputs\<close>; during one call it increases only when
  the call's demand for the key exceeds the number at the start of the call, and then by
  exactly the deficit.
\<close>

theorem pool_growth:
  assumes "get_static_inputs s xs = (r, s')"
  shows "length (deque_of (static_inputs_pool s) k)
           \<le> length (deque_of (static_inputs_pool (calls_from s calls)) k) \<and>
         length (deque_of (static_inputs_pool s) k) \<le> length (deque_of (static_inputs_pool s') k) \<and>
         (length (deque_of (static_inputs_pool s) k) < length (deque_of (static_inputs_pool s') k)
            \<longrightarrow> length (deque_of (static_inputs_pool s) k) < demand xs k) \<and>
         length (deque_of (static_inputs_pool s') k) =
           length (deque_of (static_inputs_pool s) k)
             + (demand xs k - length (deque_of (static_inputs_pool s) k))"
proof -
  obtain outs s'' where r: "get_static_inputs s xs = (Inr outs, s'')"
    using get_static_inputs_returns by blast
  with assms have "get_static_inputs s xs = (Inr outs, s')" by simp
  from get_static_inputs_count[OF this, of k] calls_from_mono[of s k calls]
  show ?thesis by simp
qed

theorem pool_growth_witness:
  "length (deque_of (static_inputs_pool (initial_state 4096)) (512, Float32)) = 0 \<and>
   demand [contiguous Float32 0 100, contiguous Float32 400 120] (512, Float32) = 2 \<and>
   length (deque_of (static_inputs_pool (snd (get_static_inputs (initial_state 4096)
      [contiguous Float32 0 100, contiguous Float32 400 120]))) (512, Float32)) = 2"
proof -
  let ?xs = "[contiguous Float32 0 100, contiguous Float32 400 120]"
  have d: "demand ?xs (512, Float32) = 2"
    by (simp add: demand_def key_f32_100 key_f32_120)
  have e: "deque_of (static_inputs_pool (initial_state 4096)) (512, Float32) = []"
    by (simp add: initial_state_def deque_of_def)
  show ?thesis
    using pool_growth[of "initial_state 4096" ?xs _ _ "(512, Float32)" "[]", OF surjective_pairing]
    by (simp add: d e)
qed

text \<open>
  C4: when the pool's queue for a key is \<open>[A, B]\<close>, a call with one input of that key
  binds it to \<open>A\<close>, a following call with one input of that key binds it to \<open>A\<close>
  again, and a call with two inputs of that key binds the first to \<open>A\<close> and the
  second to \<open>B\<close>; the queue stays \<open>[A, B]\<close>.
\<close>

theorem fifo_reuse:
  assumes pool: "deque_of (static_inputs_pool s) k = [A, B]"
    and c1: "get_static_inputs s xs = (Inr outs1, s1)" "demand xs k = 1"
      "i < length xs" "pool_key_of (xs ! i) = k"
    and c2: "get_static_inputs s1 ys = (Inr outs2, s2)" "demand ys k = 1"
      "j < length ys" "pool_key_of (ys ! j) = k"
    and c3: "get_static_inputs s2 zs = (Inr outs3, s3)" "demand zs k = 2"
      "p < q" "q < length zs" "pool_key_of (zs ! p) = k" "pool_key_of (zs ! q) = k"
  shows "outs1 ! i = bound_view A (xs ! i) \<and> data_ptr (outs1 ! i) = data_ptr A \<and>
         outs2 ! j = bound_view A (ys ! j) \<and> data_ptr (outs2 ! j) = data_ptr A \<and>
         outs3 ! p = bound_view A (zs ! p) \<and> data_ptr (outs3 ! p) = data_ptr A \<and>
         outs3 ! q = bound_view B (zs ! q) \<and> data_ptr (outs3 ! q) = data_ptr B \<and>
         deque_of (static_inputs_pool s3) k = [A, B]"
proof -
  have p1: "deque_of (static_inputs_pool s1) k = [A, B]"
    using get_static_inputs_reuse[OF c1(1), of k] c1(2) pool by simp
  have p2: "deque_of (static_inputs_pool s2) k = [A, B]"
    using get_static_inputs_reuse[OF c2(1), of k] c2(2) p1 by simp
  have p3: "deque_of (static_inputs_pool s3) k = [A, B]"
    using get_static_inputs_reuse[OF c3(1), of k] c3(2) p2 by simp
  have "occ xs i = 0" using occ_less_demand[OF c1(3)] c1(2,4) by simp
  then have o1: "outs1 ! i = bound_view A (xs ! i)"
    using get_static_inputs_old[OF c1(1,3)] c1(4) pool by simp
  have "occ ys j = 0" using occ_less_demand[OF c2(3)] c2(2,4) by simp
  then have o2: "outs2 ! j = bound_view A (ys ! j)"
    using get_static_inputs_old[OF c2(1,3)] c2(4) p1 by simp
  have pl: "p < length zs" using c3(3,4) by simp
  have "occ zs q < 2" using occ_less_demand[OF c3(4)] c3(2,6) by simp
  moreover have "occ zs p < occ zs q" using occ_mono[OF c3(3,4)] c3(5,6) by simp
  ultimately have oq: "occ zs q = 1" and op: "occ zs p = 0" by simp_all
  have o3: "outs3 ! p = bound_view A (zs ! p)"
    using get_static_inputs_old[OF c3(1) pl] c3(5) p2 op by simp
  have o4: "outs3 ! q = bound_view B (zs ! q)"
    using get_static_inputs_old[OF c3(1,4)] c3(6) p2 oq by simp
  show ?thesis using o1 o2 o3 o4 p3 by (simp add: data_ptr_bound_view)
qed

theorem fifo_reuse_witness:
  "data_ptr (projr (fst (get_static_inputs two_buffer_state [contiguous Float32 0 100])) ! 0) = 4096 \<and>
   data_ptr (projr (fst (get_static_inputs
      (snd (get_static_inputs two_buffer_state [contiguous Float32 0 100]))
      [contiguous Float32 400 120])) ! 0) = 4096 \<and>
   map data_ptr (projr (fst (get_static_inputs
      (snd (get_static_inputs
         (snd (get_static_inputs two_buffer_state [contiguous Float32 0 100]))
         [contiguous Float32 400 120]))
      [contiguous Float32 0 100, contiguous Float32 400 120]))) = [4096, 6144]"
proof -
  let ?A = "contiguous Float32 4096 512" and ?B = "contiguous Float32 6144 512"
  let ?k = "(512, Float32) :: pool_key"
  let ?xs = "[contiguous Float32 0 100]" and ?ys = "[contiguous Float32 400 120]"
  let ?zs = "[contiguous Float32 0 100, contiguous Float32 400 120]"
  obtain outs1 s1 where r1: "get_static_inputs two_buffer_state ?xs = (Inr outs1, s1)"
    using get_static_inputs_returns by blast
  obtain outs2 s2 where r2: "get_static_inputs s1 ?ys = (Inr outs2, s2)"
    using get_static_inputs_returns by blast
  obtain outs3 s3 where r3: "get_static_inputs s2 ?zs = (Inr outs3, s3)"
    using get_static_inputs_returns by blast
  have pool: "deque_of (static_inputs_pool two_buffer_state) ?k = [?A, ?B]"
    by (simp add: two_buffer_state_def deque_of_def)
  have d: "demand ?xs ?k = 1" "demand ?ys ?k = 1" "demand ?zs ?k = 2"
    by (simp_all add: demand_def key_f32_100 key_f32_120)
  have l3: "length outs3 = 2" using get_static_inputs_length[OF r3] by simp
  have "data_ptr (outs1 ! 0) = data_ptr ?A \<and> data_ptr (outs2 ! 0) = data_ptr ?A \<and>
      data_ptr (outs3 ! 0) = data_ptr ?A \<and> data_ptr (outs3 ! 1) = data_ptr ?B"
    using fifo_reuse[OF pool r1 d(1) _ _ r2 d(2) _ _ r3 d(3), of 0 0 0 1]
    by (simp add: key_f32_100 key_f32_120 data_ptr_bound_view)
  moreover have "data_ptr ?A = 4096" "data_ptr ?B = 6144"
    by (simp_all add: data_ptr_def contiguous_def)
  moreover have "map data_ptr outs3 = [data_ptr (outs3 ! 0), data_ptr (outs3 ! 1)]"
    using l3 by (cases outs3; cases "tl outs3") auto
  ultimately show ?thesis by (simp add: r1 r2 r3)
qed







text \<open>
  C8: in both branches the static indices given to the capture primitive are to be all
  the positions of the bound inputs given to it.  The eager branch does so, and the
  deferred branch does so when the first call passes as many inputs as the wrapper was
  built with (\<open>capture_static_indices\<close>).  But the deferred branch takes the indices
  from \<open>inputs\<close>, the inputs the wrapper was built with, and not from \<open>new_inputs\<close>:
  built with one input and first called with two, it gives the capture primitive two
  bound inputs and the static indices \<open>[0]\<close>.
\<close>

theorem deferred_static_indices_mismatch:
  "capture_log (trace (fst (snd (invoke never (initial_state 4096)
      (DeferredFn [FakeTensor (contiguous Float32 0 100)] None)
      [contiguous Float32 0 100, contiguous Float32 400 300])))) = [(2, [0])]"
proof -
  let ?s = "initial_state 4096"
  let ?xs = "[FakeTensor (contiguous Float32 0 100)]"
  let ?args = "[contiguous Float32 0 100, contiguous Float32 400 300]"
  obtain s1 c1 where i: "invoke never ?s (DeferredFn ?xs None) ?args = (Inr (), s1, c1)"
    using invoke_never_first[of ?s ?xs ?args] by (metis prod.collapse)
  obtain bound where "length bound = length ?args"
    and "trace s1 = trace ?s @ [ModelCall bound, Capture bound [0..<length ?xs],
        Replay (Suc (length (trace ?s))) bound]"
    using invoke_first[OF i] by blast
  then have "capture_log (trace s1) = [(2, [0])]"
    by (simp add: initial_state_def)
  then show ?thesis by (simp add: i del: invoke.simps)
qed



text \<open>
  C10: \<open>cuda_graphs_wrapper\<close> fails its assertion on an argument that is neither a
  list nor a tuple, and leaves the state as it was.  On a list or a tuple it takes the
  deferred branch when an element is a \<open>FakeTensor\<close> and the eager branch otherwise;
  the eager branch does not fail the assertion and calls the model.
\<close>

theorem wrapper_argument_check:
  "cuda_graphs_wrapper raises s PyOther = (Inl AssertionError, s) \<and>
   (inputs = PyList xs \<or> inputs = PyTuple xs \<longrightarrow>
      (list_ex is_fake xs \<longrightarrow>
         cuda_graphs_wrapper raises s inputs = (Inr (DeferredFn xs None), s)) \<and>
      (\<not> list_ex is_fake xs \<longrightarrow>
         cuda_graphs_wrapper raises s inputs = eager_branch raises s xs \<and>
         fst (eager_branch raises s xs) \<noteq> Inl AssertionError \<and>
         new_events s (snd (eager_branch raises s xs)) \<noteq> []))"
proof -
  obtain r s' where e: "eager_branch raises s xs = (r, s')" by fastforce
  from eager_branch_events[OF e]
  have "r \<noteq> Inl AssertionError \<and> new_events s s' \<noteq> []"
    by (auto simp: new_events_def)
  then show ?thesis by (auto simp: cuda_graphs_wrapper_def e)
qed

theorem wrapper_argument_check_witness:
  "cuda_graphs_wrapper never (initial_state 4096) PyOther
     = (Inl AssertionError, initial_state 4096) \<and>
   cuda_graphs_wrapper never (initial_state 4096) (PyTuple [FakeTensor (contiguous Float32 0 100)])
     = (Inr (DeferredFn [FakeTensor (contiguous Float32 0 100)] None), initial_state 4096) \<and>
   fst (cuda_graphs_wrapper never (initial_state 4096) (PyList [Tensor (contiguous Float32 0 100)]))
     \<noteq> Inl AssertionError"
  using wrapper_argument_check[of never "initial_state 4096" "PyTuple [FakeTensor (contiguous Float32 0 100)]"
      "[FakeTensor (contiguous Float32 0 100)]"]
    wrapper_argument_check[of never "initial_state 4096" "PyList [Tensor (contiguous Float32 0 100)]"
      "[Tensor (contiguous Float32 0 100)]"]
  by simp

end
